theory Spec2Isabelle
  imports Main "HOL-Library.Word" "HOL-Library.Multiset"
begin

section \<open>The growable array of \<^verbatim>\<open>sc_array.h\<close>\<close>

text \<open>
  The header defines, per element type \<open>T\<close>, a struct with the fields \<^verbatim>\<open>oom\<close>,
  \<^verbatim>\<open>cap\<close>, \<^verbatim>\<open>size\<close> and \<^verbatim>\<open>elems\<close>, and a family of macros working on a pointer to
  it. The embedding keeps the struct as a record and every macro as a function from
  the array before the call to the array after it.

  \<^item> \<^verbatim>\<open>size_t\<close> is \<open>'w word\<close>: arithmetic wraps at \<open>2 ^ LENGTH('w)\<close>, as unsigned
    arithmetic does in C, and \<^verbatim>\<open>SIZE_MAX\<close> is \<open>- 1\<close>.
  \<^item> The pointer \<^verbatim>\<open>elems\<close> is \<open>None\<close> when it is \<^verbatim>\<open>NULL\<close> and \<open>Some b\<close> when it
    points to an allocated block; \<open>b\<close> lists the slots of the block, so
    \<open>length b\<close> is what the allocator really handed out, whatever \<^verbatim>\<open>cap\<close> records.
  \<^item> What is undefined behaviour or an \<^verbatim>\<open>assert\<close> failure in C is a value of
    type \<open>fault\<close>, returned on the left of a sum.
  \<^item> \<^verbatim>\<open>sizeof(*(a)->elems)\<close> is the parameter \<open>esz\<close>, and the configurable
    \<^verbatim>\<open>SC_ARRAY_MAX\<close> (default \<^verbatim>\<open>SIZE_MAX\<close>) is the parameter \<open>amax\<close>.
\<close>

datatype fault = NullDeref | OutOfBounds | AssertFailed | TornSlot | WidthMismatch

record ('s, 'a) sc_array_struct =
  oom :: bool
  cap :: 's
  size_f :: 's
  elems :: "'a list option"

text \<open>The struct with \<^verbatim>\<open>size_t\<close> counters of \<open>LENGTH('w)\<close> bits.\<close>

type_synonym ('w, 'a) sc_array = "('w word, 'a) sc_array_struct"

subsection \<open>The C library calls the macros make\<close>

text \<open>
  \<^verbatim>\<open>realloc\<close> either fails, and then leaves the old block as it is, or returns a
  block of the requested byte count whose leading slots hold the old contents. The
  outcome is not decided by the program, so it is an argument: \<open>AllocFail\<close>, or
  \<open>AllocOk junk\<close>, where \<open>junk j\<close> is the indeterminate value found in a fresh
  slot \<open>j\<close>. A block of \<open>n\<close> bytes has \<open>n div esz\<close> whole slots. A request for
  zero bytes, which C leaves to the implementation, is answered like any other.
\<close>

datatype 'a alloc = AllocFail | AllocOk "nat \<Rightarrow> 'a"

definition block_of :: "'a list option \<Rightarrow> 'a list" where
  "block_of p = (case p of None \<Rightarrow> [] | Some b \<Rightarrow> b)"

definition sc_array_realloc :: "'a alloc \<Rightarrow> nat \<Rightarrow> 'a list option \<Rightarrow> nat \<Rightarrow> 'a list option" where
  "sc_array_realloc al esz p nbytes =
     (case al of
        AllocFail \<Rightarrow> None
      | AllocOk junk \<Rightarrow>
          Some (map (\<lambda>j. if j < length (block_of p) then block_of p ! j else junk j)
                  [0 ..< nbytes div esz]))"

definition zero_fill :: "nat \<Rightarrow> 'a::zero" where
  "zero_fill j = 0"

text \<open>
  \<^verbatim>\<open>memmove(&b[dst], &b[src], nbytes)\<close> on a block of slots of \<open>esz\<close> bytes. A byte
  count that is no multiple of \<open>esz\<close> would tear a slot; a range that leaves the
  block is out of bounds.
\<close>

definition memmove_slots :: "nat \<Rightarrow> 'a list \<Rightarrow> nat \<Rightarrow> nat \<Rightarrow> nat \<Rightarrow> fault + 'a list" where
  "memmove_slots esz b dst src nbytes =
     (if nbytes mod esz \<noteq> 0 then Inl TornSlot
      else let n = nbytes div esz in
        if length b < src + n \<or> length b < dst + n then Inl OutOfBounds
        else Inr (take dst b @ take n (drop src b) @ drop (dst + n) b))"

text \<open>
  \<^verbatim>\<open>qsort(base, nmemb, width, cmp)\<close> sorts \<open>nmemb\<close> records of \<open>width\<close> bytes each.
  It sorts the elements of the block only when \<open>width\<close> is the size of an element;
  with any other width the records it permutes are not the elements.
\<close>

fun insert_cmp :: "('a \<Rightarrow> 'a \<Rightarrow> int) \<Rightarrow> 'a \<Rightarrow> 'a list \<Rightarrow> 'a list" where
  "insert_cmp cmp x [] = [x]"
| "insert_cmp cmp x (y # ys) =
     (if cmp x y \<le> 0 then x # y # ys else y # insert_cmp cmp x ys)"

fun sort_cmp :: "('a \<Rightarrow> 'a \<Rightarrow> int) \<Rightarrow> 'a list \<Rightarrow> 'a list" where
  "sort_cmp cmp [] = []"
| "sort_cmp cmp (x # xs) = insert_cmp cmp x (sort_cmp cmp xs)"

definition qsort_slots ::
  "nat \<Rightarrow> 'a list \<Rightarrow> nat \<Rightarrow> nat \<Rightarrow> ('a \<Rightarrow> 'a \<Rightarrow> int) \<Rightarrow> fault + 'a list" where
  "qsort_slots esz b nmemb width cmp =
     (if width \<noteq> esz then Inl WidthMismatch
      else if length b < nmemb then Inl OutOfBounds
      else Inr (sort_cmp cmp (take nmemb b) @ drop nmemb b))"

subsection \<open>The macros\<close>

text \<open>\<^verbatim>\<open>sc_array_init\<close>: \<^verbatim>\<open>memset\<close> of the whole struct to zero.\<close>

definition sc_array_init :: "('w::len, 'a) sc_array \<Rightarrow> ('w, 'a) sc_array" where
  "sc_array_init a = \<lparr>oom = False, cap = 0, size_f = 0, elems = None\<rparr>"

text \<open>\<^verbatim>\<open>sc_array_term\<close>: free the block, then \<^verbatim>\<open>sc_array_init\<close>.\<close>

definition sc_array_term :: "('w::len, 'a) sc_array \<Rightarrow> ('w, 'a) sc_array" where
  "sc_array_term a = sc_array_init a"

text \<open>
  The last two statements of \<^verbatim>\<open>sc_array_add\<close>:
  \<^verbatim>\<open>(a)->oom = false; (a)->elems[(a)->size++] = k;\<close>
\<close>

definition add_store :: "('w::len, 'a) sc_array \<Rightarrow> 'a \<Rightarrow> fault + ('w, 'a) sc_array" where
  "add_store a k =
     (case elems a of
        None \<Rightarrow> Inl NullDeref
      | Some b \<Rightarrow>
          if unat (size_f a) < length b
          then Inr (a\<lparr>oom := False, size_f := size_f a + 1,
                       elems := Some (b[unat (size_f a) := k])\<rparr>)
          else Inl OutOfBounds)"

text \<open>The local \<^verbatim>\<open>_cap\<close> of \<^verbatim>\<open>sc_array_add\<close>.\<close>

definition new_cap :: "('w::len, 'a) sc_array \<Rightarrow> 'w word" where
  "new_cap a = (if cap a = 0 then 8 else cap a * 2)"

definition sc_array_add ::
  "'w word \<Rightarrow> 'w word \<Rightarrow> 'a alloc \<Rightarrow> ('w::len, 'a) sc_array \<Rightarrow> 'a \<Rightarrow> fault + ('w, 'a) sc_array" where
  "sc_array_add amax esz al a k =
     (let max' = amax div esz in
      if cap a = size_f a then
        if cap a > max' div 2 then Inr (a\<lparr>oom := True\<rparr>)
        else
          (case sc_array_realloc al (unat esz) (elems a) (unat (new_cap a * esz)) of
             None \<Rightarrow> Inr (a\<lparr>oom := True\<rparr>)
           | Some p \<Rightarrow> add_store (a\<lparr>cap := new_cap a, elems := Some p\<rparr>) k)
      else add_store a k)"

definition sc_array_clear :: "('w::len, 'a) sc_array \<Rightarrow> ('w, 'a) sc_array" where
  "sc_array_clear a = a\<lparr>cap := 0, size_f := 0, oom := False\<rparr>"

definition sc_array_oom :: "('w::len, 'a) sc_array \<Rightarrow> bool" where
  "sc_array_oom a = oom a"

definition sc_array_at :: "('w::len, 'a) sc_array \<Rightarrow> 'w word \<Rightarrow> fault + 'a" where
  "sc_array_at a i =
     (case elems a of
        None \<Rightarrow> Inl NullDeref
      | Some b \<Rightarrow> if unat i < length b then Inr (b ! unat i) else Inl OutOfBounds)"

definition sc_array_size :: "('w::len, 'a) sc_array \<Rightarrow> 'w word" where
  "sc_array_size a = size_f a"

definition sc_array_del ::
  "'w word \<Rightarrow> ('w::len, 'a) sc_array \<Rightarrow> 'w word \<Rightarrow> fault + ('w, 'a) sc_array" where
  "sc_array_del esz a i =
     (if \<not> i < size_f a then Inl AssertFailed
      else let cnt = size_f a - i - 1 in
        if cnt > 0 then
          (case elems a of
             None \<Rightarrow> Inl NullDeref
           | Some b \<Rightarrow>
               (case memmove_slots (unat esz) b (unat i) (unat (i + 1)) (unat (cnt * esz)) of
                  Inl f \<Rightarrow> Inl f
                | Inr b' \<Rightarrow> Inr (a\<lparr>elems := Some b', size_f := size_f a - 1\<rparr>)))
        else Inr (a\<lparr>size_f := size_f a - 1\<rparr>))"

definition sc_array_del_unordered ::
  "('w::len, 'a) sc_array \<Rightarrow> 'w word \<Rightarrow> fault + ('w, 'a) sc_array" where
  "sc_array_del_unordered a i =
     (if \<not> i < size_f a then Inl AssertFailed
      else
        (case elems a of
           None \<Rightarrow> Inl NullDeref
         | Some b \<Rightarrow>
             if length b \<le> unat (size_f a - 1) \<or> length b \<le> unat i then Inl OutOfBounds
             else Inr (a\<lparr>size_f := size_f a - 1,
                          elems := Some (b[unat i := b ! unat (size_f a - 1)])\<rparr>)))"

definition sc_array_del_last :: "('w::len, 'a) sc_array \<Rightarrow> fault + ('w, 'a) sc_array" where
  "sc_array_del_last a =
     (if size_f a = 0 then Inl AssertFailed else Inr (a\<lparr>size_f := size_f a - 1\<rparr>))"

text \<open>
  \<^verbatim>\<open>sc_array_sort(a, cmp)\<close> expands to
  \<^verbatim>\<open>qsort((a)->elems, (a)->size, *(a)->elems, cmp)\<close>: the third argument, the record
  width, is the value of the first element converted to \<^verbatim>\<open>size_t\<close> (\<open>to_size\<close>), not
  \<^verbatim>\<open>sizeof(*(a)->elems)\<close>.
\<close>

definition sc_array_sort ::
  "'w word \<Rightarrow> ('a \<Rightarrow> 'w word) \<Rightarrow> ('w::len, 'a) sc_array \<Rightarrow> ('a \<Rightarrow> 'a \<Rightarrow> int)
     \<Rightarrow> fault + ('w, 'a) sc_array" where
  "sc_array_sort esz to_size a cmp =
     (case elems a of
        None \<Rightarrow> Inl NullDeref
      | Some b \<Rightarrow>
          if length b = 0 then Inl OutOfBounds
          else
            (case qsort_slots (unat esz) b (unat (size_f a)) (unat (to_size (b ! 0))) cmp of
               Inl f \<Rightarrow> Inl f
             | Inr b' \<Rightarrow> Inr (a\<lparr>elems := Some b'\<rparr>)))"

definition sc_array_last :: "('w::len, 'a) sc_array \<Rightarrow> fault + 'a" where
  "sc_array_last a = sc_array_at a (size_f a - 1)"

text \<open>
  \<^verbatim>\<open>sc_array_foreach\<close>: the outer loop runs \<^verbatim>\<open>_i\<close> from 0 while \<^verbatim>\<open>_i != (a)->size\<close>
  and reads \<^verbatim>\<open>(a)->elems[_i]\<close> into \<^verbatim>\<open>elem\<close> before each run of the body. The model
  returns the values \<^verbatim>\<open>elem\<close> takes, in order, for a body that neither breaks nor
  changes the array.
\<close>

function foreach_from :: "('w::len, 'a) sc_array \<Rightarrow> 'w word \<Rightarrow> fault + 'a list" where
  "foreach_from a i =
     (if i = size_f a then Inr []
      else
        (case sc_array_at a i of
           Inl f \<Rightarrow> Inl f
         | Inr x \<Rightarrow>
             (case foreach_from a (i + 1) of
                Inl f \<Rightarrow> Inl f
              | Inr xs \<Rightarrow> Inr (x # xs))))"
  by pat_completeness auto
termination
proof (relation "measure (\<lambda>(a :: ('a::len, 'b) sc_array, i). unat (size_f a - i))")
  show "wf (measure (\<lambda>(a :: ('a::len, 'b) sc_array, i). unat (size_f a - i)))"
    by simp
next
  fix a :: "('a::len, 'b) sc_array" and i :: "'a word" and x :: 'b
  assume ne: "i \<noteq> size_f a"
  then have nz: "size_f a - i \<noteq> 0"
    by simp
  have eq: "size_f a - (i + 1) = size_f a - i - 1"
    by simp
  have "unat (size_f a - i - 1) = unat (size_f a - i) - 1"
    using nz by (rule unat_minus_one)
  then have "unat (size_f a - (i + 1)) = unat (size_f a - i) - 1"
    by (simp only: eq)
  moreover have "0 < unat (size_f a - i)"
    using nz by (simp add: unat_gt_0)
  ultimately show "((a, i + 1), (a, i)) \<in> measure (\<lambda>(a, i). unat (size_f a - i))"
    by simp
qed

declare foreach_from.simps [simp del]

definition sc_array_foreach :: "('w::len, 'a) sc_array \<Rightarrow> fault + 'a list" where
  "sc_array_foreach a = foreach_from a 0"

subsection \<open>Sequences of calls\<close>

datatype ('s, 'a) op =
    Init
  | Add "'a alloc" 'a
  | Del 's
  | DelUnordered 's
  | DelLast
  | Clear
  | Term

fun apply_op ::
  "'w word \<Rightarrow> 'w word \<Rightarrow> ('w::len word, 'a) op \<Rightarrow> ('w, 'a) sc_array \<Rightarrow> fault + ('w, 'a) sc_array" where
  "apply_op amax esz Init a = Inr (sc_array_init a)"
| "apply_op amax esz (Add al k) a = sc_array_add amax esz al a k"
| "apply_op amax esz (Del i) a = sc_array_del esz a i"
| "apply_op amax esz (DelUnordered i) a = sc_array_del_unordered a i"
| "apply_op amax esz DelLast a = sc_array_del_last a"
| "apply_op amax esz Clear a = Inr (sc_array_clear a)"
| "apply_op amax esz Term a = Inr (sc_array_term a)"

fun run ::
  "'w word \<Rightarrow> 'w word \<Rightarrow> ('w::len word, 'a) op list \<Rightarrow> ('w, 'a) sc_array \<Rightarrow> fault + ('w, 'a) sc_array" where
  "run amax esz [] a = Inr a"
| "run amax esz (x # xs) a =
     (case apply_op amax esz x a of Inl f \<Rightarrow> Inl f | Inr a' \<Rightarrow> run amax esz xs a')"

text \<open>
  The array \<open>a\<close> holds the list \<open>xs\<close>: \<^verbatim>\<open>size\<close> is its length and the first
  \<^verbatim>\<open>size\<close> slots of the block are its elements. A block never has more slots than
  \<^verbatim>\<open>size_t\<close> can count.
\<close>

definition holds :: "('w::len, 'a) sc_array \<Rightarrow> 'a list \<Rightarrow> bool" where
  "holds a xs \<longleftrightarrow>
     unat (size_f a) = length xs \<and> length xs \<le> length (block_of (elems a))
     \<and> take (length xs) (block_of (elems a)) = xs
     \<and> length (block_of (elems a)) < 2 ^ LENGTH('w)"

text \<open>
  A caller that appends the elements of a list in order and checks \<^verbatim>\<open>sc_array_oom\<close>
  after every \<^verbatim>\<open>sc_array_add\<close>, giving up at the first failure. Each element comes
  with the answer the allocator would give if asked during its append. The result
  is \<open>True\<close> with the final array when every append succeeded.
\<close>

fun append_all ::
  "'w word \<Rightarrow> 'w word \<Rightarrow> ('a alloc \<times> 'a) list \<Rightarrow> ('w::len, 'a) sc_array
     \<Rightarrow> fault + bool \<times> ('w, 'a) sc_array" where
  "append_all amax esz [] a = Inr (True, a)"
| "append_all amax esz ((al, k) # ks) a =
     (case sc_array_add amax esz al a k of
        Inl f \<Rightarrow> Inl f
      | Inr a' \<Rightarrow> if sc_array_oom a' then Inr (False, a') else append_all amax esz ks a')"

subsection \<open>Example arrays\<close>

text \<open>
  Arrays of numbers on a target with a 64-bit \<^verbatim>\<open>size_t\<close>: one with room left, one
  full at capacity 8. Their elements are taken to be 4 bytes wide.
\<close>

definition ex_part :: "(64, nat) sc_array" where
  "ex_part = \<lparr>oom = True, cap = 8, size_f = 5, elems = Some [10, 11, 12, 13, 14, 0, 0, 0]\<rparr>"

definition ex_full :: "(64, nat) sc_array" where
  "ex_full = \<lparr>oom = False, cap = 8, size_f = 8, elems = Some [0, 1, 2, 3, 4, 5, 6, 7]\<rparr>"

text \<open>
  A freshly zeroed array on a target with a 16-bit \<^verbatim>\<open>size_t\<close>, an array of
  \<^verbatim>\<open>int\<close> (\<^verbatim>\<open>struct sc_array_int\<close>, 4-byte elements) holding 1, 3, 2, and an
  ascending comparator for \<^verbatim>\<open>int\<close>. The conversion of an \<^verbatim>\<open>int\<close> to \<^verbatim>\<open>size_t\<close> is
  \<open>scast\<close>.
\<close>

definition ex_empty16 :: "(16, nat) sc_array" where
  "ex_empty16 = \<lparr>oom = False, cap = 0, size_f = 0, elems = None\<rparr>"

definition ex_ints :: "(64, 32 word) sc_array" where
  "ex_ints = \<lparr>oom = False, cap = 8, size_f = 3, elems = Some [1, 3, 2, 0, 0, 0, 0, 0]\<rparr>"

definition cmp_int :: "32 word \<Rightarrow> 32 word \<Rightarrow> int" where
  "cmp_int x y = (if sint x < sint y then - 1 else if sint y < sint x then 1 else 0)"

section \<open>Properties\<close>

subsection \<open>Word arithmetic\<close>

lemma word_pred_less: "(w :: 'w::len word) \<noteq> 0 \<Longrightarrow> w - 1 < w"
  by (simp add: word_less_nat_alt unat_minus_one unat_gt_0)

lemma unat_two: "2 \<le> LENGTH('w::len) \<Longrightarrow> unat (2 :: 'w word) = 2"
proof -
  assume "2 \<le> LENGTH('w)"
  then have "(2::nat) ^ 2 \<le> 2 ^ LENGTH('w)"
    by (rule power_increasing) simp
  then have "(2::nat) < 2 ^ LENGTH('w)"
    by simp
  then show ?thesis
    using \<open>2 \<le> LENGTH('w)\<close> by (simp add: take_bit_nat_eq_self)
qed

lemma unat_eight: "4 \<le> LENGTH('w::len) \<Longrightarrow> unat (8 :: 'w word) = 8"
proof -
  assume "4 \<le> LENGTH('w)"
  then have "(2::nat) ^ 4 \<le> 2 ^ LENGTH('w)"
    by (rule power_increasing) simp
  then have "(8::nat) < 2 ^ LENGTH('w)"
    by simp
  then show ?thesis
    by (simp add: take_bit_nat_eq_self)
qed

lemma double_no_wrap:
  fixes c m :: "'w::len word"
  assumes "c \<le> m div 2"
  shows "unat (c * 2) = 2 * unat c"
proof (cases "2 \<le> LENGTH('w)")
  case True
  have "unat c \<le> unat (m div 2)"
    using assms by (simp add: word_le_nat_alt)
  also have "\<dots> = unat m div 2"
    by (simp only: unat_div unat_two [OF True])
  finally have "2 * unat c \<le> unat m"
    by arith
  then have "2 * unat c < 2 ^ LENGTH('w)"
    by (rule le_less_trans) (rule unsigned_less)
  then have "unat c * unat (2 :: 'w word) < 2 ^ LENGTH('w)"
    by (simp only: unat_two [OF True] mult.commute)
  then have "unat (c * 2) = unat c * unat (2 :: 'w word)"
    by (simp only: unat_mult_lem)
  then show ?thesis
    by (simp only: unat_two [OF True] mult.commute)
next
  case False
  then have "LENGTH('w) = 1"
    using len_gt_0 [where 'a = 'w] by arith
  then have "(2 :: 'w word) = 0"
    by (simp add: word_eq_iff_unsigned [where ?'a = nat])
  then have "m div 2 = 0"
    by (simp only: div_by_0)
  then have "c \<le> 0"
    using assms by (simp only:)
  then have "c = 0"
    by simp
  then show ?thesis
    by simp
qed


lemma word_succ_unat:
  fixes i n :: "'w::len word"
  assumes "i < n"
  shows "unat (i + 1) = Suc (unat i)" and "i + 1 \<le> n"
proof -
  have lt: "unat i < unat n"
    using assms by (simp add: word_less_nat_alt)
  have "Suc (unat i) \<le> unat n"
    using lt by simp
  then have "Suc (unat i) < 2 ^ LENGTH('w)"
    by (rule le_less_trans) (rule unsigned_less)
  then have "unat i + unat (1 :: 'w word) < 2 ^ LENGTH('w)"
    by simp
  then have "unat (i + 1) = unat i + unat (1 :: 'w word)"
    by (simp only: unat_add_lem)
  then show s: "unat (i + 1) = Suc (unat i)"
    by simp
  show "i + 1 \<le> n"
    using lt s by (simp add: word_le_nat_alt)
qed

subsection \<open>What iteration returns\<close>

lemma foreach_from_in_bounds:
  fixes a :: "('w::len, 'a) sc_array"
  assumes "elems a = Some b" and "unat (size_f a) \<le> length b" and "i \<le> size_f a"
  shows "foreach_from a i = Inr (drop (unat i) (take (unat (size_f a)) b))"
  using assms
proof (induction a i rule: foreach_from.induct)
  case (1 a i)
  show ?case
  proof (cases "i = size_f a")
    case True
    then show ?thesis
      by (subst foreach_from.simps) simp
  next
    case False
    with "1.prems" have lt: "i < size_f a"
      by simp
    then have ui: "unat i < unat (size_f a)"
      by (simp add: word_less_nat_alt)
    with "1.prems" have at: "sc_array_at a i = Inr (b ! unat i)"
      by (simp add: sc_array_at_def)
    have "foreach_from a (i + 1) = Inr (drop (unat (i + 1)) (take (unat (size_f a)) b))"
      using "1.IH" [OF False at] "1.prems" word_succ_unat(2) [OF lt] by simp
    then have rest: "foreach_from a (i + 1) = Inr (drop (Suc (unat i)) (take (unat (size_f a)) b))"
      by (simp only: word_succ_unat(1) [OF lt])
    have "take (unat (size_f a)) b ! unat i = b ! unat i"
      using ui by simp
    moreover have "unat i < length (take (unat (size_f a)) b)"
      using ui "1.prems" by simp
    ultimately have "b ! unat i # drop (Suc (unat i)) (take (unat (size_f a)) b)
        = drop (unat i) (take (unat (size_f a)) b)"
      by (metis Cons_nth_drop_Suc)
    with False at rest show ?thesis
      by (simp add: foreach_from.simps [of a i])
  qed
qed

lemma foreach_from_Inr_bounds:
  fixes a :: "('w::len, 'a) sc_array"
  assumes "foreach_from a i = Inr xs" and "i < size_f a"
  shows "\<exists>b. elems a = Some b \<and> unat (size_f a) \<le> length b"
  using assms
proof (induction a i arbitrary: xs rule: foreach_from.induct)
  case (1 a i)
  from "1.prems" have ne: "i \<noteq> size_f a"
    by auto
  from "1.prems" ne obtain x xs' where at: "sc_array_at a i = Inr x"
    and rest: "foreach_from a (i + 1) = Inr xs'"
    by (simp add: foreach_from.simps [of a i] split: sum.splits)
  from at obtain b where b: "elems a = Some b" and ib: "unat i < length b"
    by (auto simp: sc_array_at_def split: option.splits if_splits)
  show ?case
  proof (cases "i + 1 = size_f a")
    case True
    then have "unat (size_f a) = Suc (unat i)"
      using word_succ_unat(1) [OF "1.prems"(2)] by simp
    with b ib show ?thesis
      by simp
  next
    case False
    with word_succ_unat(2) [OF "1.prems"(2)] have "i + 1 < size_f a"
      by simp
    from "1.IH" [OF ne at rest this] show ?thesis .
  qed
qed

lemma foreach_Inr_iff:
  fixes a :: "('w::len, 'a) sc_array"
  shows "sc_array_foreach a = Inr xs \<longleftrightarrow>
     (size_f a = 0 \<and> xs = []
      \<or> (\<exists>b. elems a = Some b \<and> unat (size_f a) \<le> length b \<and> xs = take (unat (size_f a)) b))"
proof (cases "size_f a = 0")
  case True
  then show ?thesis
    by (auto simp: sc_array_foreach_def foreach_from.simps [of a 0])
next
  case False
  then have pos: "0 < size_f a"
    by (simp add: word_greater_zero_iff)
  show ?thesis
  proof
    assume r: "sc_array_foreach a = Inr xs"
    then obtain b where b: "elems a = Some b" "unat (size_f a) \<le> length b"
      using foreach_from_Inr_bounds [of a 0 xs] pos by (auto simp: sc_array_foreach_def)
    from foreach_from_in_bounds [OF b, of 0] r have "xs = take (unat (size_f a)) b"
      by (simp add: sc_array_foreach_def)
    with b show "size_f a = 0 \<and> xs = []
      \<or> (\<exists>b. elems a = Some b \<and> unat (size_f a) \<le> length b \<and> xs = take (unat (size_f a)) b)"
      by simp
  next
    assume "size_f a = 0 \<and> xs = []
      \<or> (\<exists>b. elems a = Some b \<and> unat (size_f a) \<le> length b \<and> xs = take (unat (size_f a)) b)"
    with False obtain b where b: "elems a = Some b" "unat (size_f a) \<le> length b"
      and xs: "xs = take (unat (size_f a)) b"
      by auto
    from foreach_from_in_bounds [OF b, of 0] xs show "sc_array_foreach a = Inr xs"
      by (simp add: sc_array_foreach_def)
  qed
qed

subsection \<open>Auxiliary facts on deleting\<close>

lemma del_count:
  fixes i n :: "'w::len word"
  assumes "i < n"
  shows "unat (n - i - 1) = unat n - unat i - 1"
proof -
  from assms have "i \<le> n"
    by simp
  then have s: "unat (n - i) = unat n - unat i"
    by (rule unat_sub)
  from assms have "unat i < unat n"
    by (simp add: word_less_nat_alt)
  with s have "n - i \<noteq> 0"
    by (metis unat_gt_0 zero_less_diff)
  then have "unat (n - i - 1) = unat (n - i) - 1"
    by (rule unat_minus_one)
  with s show ?thesis
    by simp
qed

lemma foreach_holds:
  fixes a :: "('w::len, 'a) sc_array"
  assumes "sc_array_foreach a = Inr xs" and "size_f a \<noteq> 0"
  obtains b where "elems a = Some b" and "unat (size_f a) \<le> length b"
    and "xs = take (unat (size_f a)) b"
  using assms by (auto simp: foreach_Inr_iff)

lemma swap_remove_mset:
  assumes "i < length xs"
  shows "mset (butlast (xs[i := last xs])) = mset xs - {#xs ! i#}"
proof (cases xs rule: rev_cases)
  case Nil
  with assms show ?thesis
    by simp
next
  case (snoc ys y)
  show ?thesis
  proof (cases "i < length ys")
    case True
    then have "ys ! i \<in># mset ys"
      by simp
    then have "add_mset y (mset ys) - {#ys ! i#} = add_mset y (mset ys - {#ys ! i#})"
      by simp
    with True snoc show ?thesis
      by (simp add: list_update_append nth_append mset_update)
  next
    case False
    with assms snoc have "i = length ys"
      by simp
    with snoc show ?thesis
      by simp
  qed
qed

subsection \<open>Appending to an array that holds a list\<close>

lemma holds_foreach:
  fixes a :: "('w::len, 'a) sc_array"
  assumes "holds a xs"
  shows "sc_array_foreach a = Inr xs"
proof (cases "elems a")
  case None
  with assms have "xs = []" and "unat (size_f a) = 0"
    by (auto simp: holds_def block_of_def)
  then show ?thesis
    by (simp add: foreach_Inr_iff unat_eq_0)
next
  case (Some b)
  with assms show ?thesis
    by (auto simp: holds_def block_of_def foreach_Inr_iff)
qed

lemma store_holds:
  fixes s :: "('w::len, 'a) sc_array"
  assumes n: "unat (size_f s) = length xs" and p: "elems s = Some p"
    and small: "length p < 2 ^ LENGTH('w)"
    and same: "\<And>j. j < length xs \<Longrightarrow> j < length p \<Longrightarrow> p ! j = xs ! j"
    and st: "add_store s k = Inr a'"
  shows "holds a' (xs @ [k])"
proof -
  from st p n have room: "length xs < length p"
    and a': "a' = s\<lparr>oom := False, size_f := size_f s + 1, elems := Some (p[length xs := k])\<rparr>"
    by (auto simp: add_store_def split: if_splits)
  have "unat (size_f s) + unat (1 :: 'w word) < 2 ^ LENGTH('w)"
    using room small n by simp
  then have "unat (size_f s + 1) = unat (size_f s) + unat (1 :: 'w word)"
    by (simp only: unat_add_lem)
  then have sz: "unat (size_f a') = Suc (length xs)"
    using a' n by simp
  have "take (Suc (length xs)) (p[length xs := k]) = xs @ [k]"
  proof (rule nth_equalityI)
    show "length (take (Suc (length xs)) (p[length xs := k])) = length (xs @ [k])"
      using room by simp
  next
    fix j
    assume "j < length (take (Suc (length xs)) (p[length xs := k]))"
    then have "j < Suc (length xs)"
      by simp
    then show "take (Suc (length xs)) (p[length xs := k]) ! j = (xs @ [k]) ! j"
      using room same [of j] by (cases "j = length xs") (simp_all add: nth_append)
  qed
  then show ?thesis
    using a' sz room small by (simp add: holds_def block_of_def)
qed

lemma add_holds:
  fixes a :: "('w::len, 'a) sc_array"
  assumes h: "holds a xs" and r: "sc_array_add amax esz al a k = Inr a'" and ok: "\<not> oom a'"
  shows "holds a' (xs @ [k])"
proof (cases "cap a = size_f a")
  case False
  with r have st: "add_store a k = Inr a'"
    by (simp add: sc_array_add_def)
  then obtain p where p: "elems a = Some p"
    by (auto simp: add_store_def split: option.splits)
  from h p show ?thesis
    by (intro store_holds [OF _ p _ _ st]) (auto simp: holds_def block_of_def dest: nth_take [of _ "length xs" p])
next
  case True
  let ?n = "unat (new_cap a * esz) div unat esz"
  from True r ok obtain junk p where al: "al = AllocOk junk"
    and p: "p = map (\<lambda>j. if j < length (block_of (elems a)) then block_of (elems a) ! j else junk j) [0 ..< ?n]"
    and st: "add_store (a\<lparr>cap := new_cap a, elems := Some p\<rparr>) k = Inr a'"
    by (auto simp: sc_array_add_def sc_array_realloc_def split: if_splits alloc.splits)
  have "?n \<le> unat (new_cap a * esz)"
    by (rule div_le_dividend)
  then have "?n < 2 ^ LENGTH('w)"
    by (rule le_less_trans) (rule unsigned_less)
  then have small: "length p < 2 ^ LENGTH('w)"
    by (simp add: p)
  have same: "p ! j = xs ! j" if "j < length xs" "j < length p" for j
  proof -
    from h that have "j < length (block_of (elems a))" and "block_of (elems a) ! j = xs ! j"
      by (auto simp: holds_def dest: nth_take [of j "length xs" "block_of (elems a)"])
    with that show ?thesis
      by (simp add: p)
  qed
  from h show ?thesis
    by (intro store_holds [OF _ _ small same st]) (auto simp: holds_def)
qed

lemma append_all_holds:
  fixes a :: "('w::len, 'a) sc_array"
  assumes "holds a xs" and "append_all amax esz ks a = Inr (True, a')"
  shows "holds a' (xs @ map snd ks)"
  using assms
proof (induction ks arbitrary: a xs)
  case Nil
  then show ?case
    by simp
next
  case (Cons x ks)
  obtain al k where x: "x = (al, k)"
    by (cases x)
  from Cons.prems(2) x obtain a1 where a1: "sc_array_add amax esz al a k = Inr a1"
    and ok: "\<not> oom a1" and rest: "append_all amax esz ks a1 = Inr (True, a')"
    by (auto simp: sc_array_oom_def split: sum.splits if_splits)
  from add_holds [OF Cons.prems(1) a1 ok] have "holds a1 (xs @ [k])" .
  from Cons.IH [OF this rest] x show ?case
    by simp
qed

subsection \<open>Auxiliary facts on appending\<close>

lemma add_store_result:
  fixes a :: "('w::len, 'a) sc_array"
  assumes "add_store a k = Inr a'"
  shows "cap a' = cap a \<and> size_f a' = size_f a + 1 \<and> \<not> oom a'
       \<and> (\<exists>b. elems a = Some b \<and> unat (size_f a) < length b
                \<and> elems a' = Some (b[unat (size_f a) := k]))"
  using assms by (auto simp: add_store_def split: option.splits if_splits)

lemma add_cap_zero:
  fixes a :: "('w::len, 'a) sc_array"
  assumes len: "4 \<le> LENGTH('w)" and inv: "cap a = 0 \<longrightarrow> elems a = None"
    and r: "sc_array_add amax esz al a k = Inr a'" and z: "cap a' = 0"
  shows "elems a' = None"
proof (cases "oom a'")
  case True
  with r have "cap a' = cap a" and "elems a' = elems a"
    by (auto simp: sc_array_add_def add_store_def Let_def
          split: if_splits option.splits)
  with inv z show ?thesis
    by simp
next
  case False
  show ?thesis
  proof (cases "cap a = size_f a")
    case ne: False
    with r have st: "add_store a k = Inr a'"
      by (simp add: sc_array_add_def)
    from add_store_result [OF st] z inv show ?thesis
      by auto
  next
    case full: True
    with r False obtain p where le: "cap a \<le> amax div esz div 2"
      and st: "add_store (a\<lparr>cap := new_cap a, elems := Some p\<rparr>) k = Inr a'"
      by (auto simp: sc_array_add_def split: if_splits option.splits)
    from add_store_result [OF st] z have nc: "new_cap a = 0"
      by simp
    have "unat (new_cap a) \<noteq> 0"
    proof (cases "cap a = 0")
      case True
      then have "new_cap a = 8"
        by (simp add: new_cap_def)
      then have "unat (new_cap a) = 8"
        by (simp only: unat_eight [OF len])
      then show ?thesis
        by simp
    next
      case False
      then have "unat (cap a) \<noteq> 0"
        by (simp add: unat_eq_0)
      with False double_no_wrap [OF le] show ?thesis
        by (simp add: new_cap_def)
    qed
    with nc show ?thesis
      by simp
  qed
qed

lemma apply_op_cap_zero:
  fixes a :: "('w::len, 'a) sc_array"
  assumes len: "4 \<le> LENGTH('w)" and inv: "cap a = 0 \<longrightarrow> elems a = None"
    and nc: "x \<noteq> Clear" and r: "apply_op amax esz x a = Inr a'" and z: "cap a' = 0"
  shows "elems a' = None"
proof (cases x)
  case Init
  with r show ?thesis
    by (auto simp: sc_array_init_def)
next
  case (Add al k)
  with r have "sc_array_add amax esz al a k = Inr a'"
    by simp
  from add_cap_zero [OF len inv this z] show ?thesis .
next
  case (Del i)
  with r inv z show ?thesis
    by (auto simp: sc_array_del_def Let_def split: if_splits option.splits sum.splits)
next
  case (DelUnordered i)
  with r inv z show ?thesis
    by (auto simp: sc_array_del_unordered_def split: if_splits option.splits)
next
  case DelLast
  with r inv z show ?thesis
    by (auto simp: sc_array_del_last_def split: if_splits)
next
  case Clear
  with nc show ?thesis
    by simp
next
  case Term
  with r show ?thesis
    by (auto simp: sc_array_term_def sc_array_init_def)
qed

lemma run_cap_zero:
  fixes a :: "('w::len, 'a) sc_array"
  assumes "4 \<le> LENGTH('w)" and "cap a = 0 \<longrightarrow> elems a = None"
    and "Clear \<notin> set ops" and "run amax esz ops a = Inr a'"
  shows "cap a' = 0 \<longrightarrow> elems a' = None"
  using assms
proof (induction ops arbitrary: a)
  case Nil
  then show ?case
    by simp
next
  case (Cons x ops)
  from Cons.prems(4) obtain a1 where a1: "apply_op amax esz x a = Inr a1"
    and rest: "run amax esz ops a1 = Inr a'"
    by (auto split: sum.splits)
  from Cons.prems(3) have nx: "x \<noteq> Clear" and nops: "Clear \<notin> set ops"
    by auto
  have "cap a1 = 0 \<longrightarrow> elems a1 = None"
    using apply_op_cap_zero [OF Cons.prems(1) Cons.prems(2) nx a1] by blast
  from Cons.IH [OF Cons.prems(1) this nops rest] show ?case .
qed

subsection \<open>Invariant I1: the size never exceeds the capacity\<close>

lemma add_size_le_cap:
  fixes a :: "('w::len, 'a) sc_array"
  assumes len: "4 \<le> LENGTH('w)" and inv: "size_f a \<le> cap a"
    and r: "sc_array_add amax esz al a k = Inr a'"
  shows "size_f a' \<le> cap a'"
proof (cases "oom a'")
  case True
  with r have "cap a' = cap a" and "size_f a' = size_f a"
    by (auto simp: sc_array_add_def add_store_def Let_def split: if_splits option.splits)
  with inv show ?thesis
    by simp
next
  case False
  show ?thesis
  proof (cases "cap a = size_f a")
    case ne: False
    with r have st: "add_store a k = Inr a'"
      by (simp add: sc_array_add_def)
    from ne inv have "size_f a < cap a"
      by simp
    then have "size_f a + 1 \<le> cap a"
      by (rule word_succ_unat(2))
    with add_store_result [OF st] show ?thesis
      by simp
  next
    case full: True
    with r False obtain p where le: "cap a \<le> amax div esz div 2"
      and st: "add_store (a\<lparr>cap := new_cap a, elems := Some p\<rparr>) k = Inr a'"
      by (auto simp: sc_array_add_def split: if_splits option.splits)
    have "unat (cap a) < unat (new_cap a)"
    proof (cases "cap a = 0")
      case True
      then have "new_cap a = 8"
        by (simp add: new_cap_def)
      then have "unat (new_cap a) = 8"
        by (simp only: unat_eight [OF len])
      with True show ?thesis
        by simp
    next
      case False
      then have "0 < unat (cap a)"
        by (simp add: unat_gt_0)
      with False double_no_wrap [OF le] show ?thesis
        by (simp add: new_cap_def)
    qed
    then have "size_f a < new_cap a"
      using full by (simp add: word_less_nat_alt)
    then have "size_f a + 1 \<le> new_cap a"
      by (rule word_succ_unat(2))
    with add_store_result [OF st] show ?thesis
      by simp
  qed
qed

lemma apply_op_size_le_cap:
  fixes a :: "('w::len, 'a) sc_array"
  assumes len: "4 \<le> LENGTH('w)" and inv: "size_f a \<le> cap a"
    and r: "apply_op amax esz x a = Inr a'"
  shows "size_f a' \<le> cap a'"
proof -
  have pred: "size_f a - 1 \<le> cap a" if "size_f a \<noteq> 0"
  proof -
    from that have "size_f a - 1 < size_f a"
      by (rule word_pred_less)
    with inv show ?thesis
      by simp
  qed
  show ?thesis
  proof (cases x)
    case (Add al k)
    with r have "sc_array_add amax esz al a k = Inr a'"
      by simp
    from add_size_le_cap [OF len inv this] show ?thesis .
  next
    case (Del i)
    with r have "i < size_f a" and "size_f a' = size_f a - 1" and "cap a' = cap a"
      by (auto simp: sc_array_del_def Let_def split: if_splits option.splits sum.splits)
    moreover from this have "size_f a \<noteq> 0"
      by auto
    ultimately show ?thesis
      using pred by simp
  next
    case (DelUnordered i)
    with r have "i < size_f a" and "size_f a' = size_f a - 1" and "cap a' = cap a"
      by (auto simp: sc_array_del_unordered_def split: if_splits option.splits)
    moreover from this have "size_f a \<noteq> 0"
      by auto
    ultimately show ?thesis
      using pred by simp
  next
    case DelLast
    with r have "size_f a \<noteq> 0" and "size_f a' = size_f a - 1" and "cap a' = cap a"
      by (auto simp: sc_array_del_last_def split: if_splits)
    with pred show ?thesis
      by auto
  qed (use r in \<open>auto simp: sc_array_init_def sc_array_term_def sc_array_clear_def\<close>)
qed

lemma run_size_le_cap:
  fixes a :: "('w::len, 'a) sc_array"
  assumes "4 \<le> LENGTH('w)" and "size_f a \<le> cap a" and "run amax esz ops a = Inr a'"
  shows "size_f a' \<le> cap a'"
  using assms
proof (induction ops arbitrary: a)
  case Nil
  then show ?case
    by simp
next
  case (Cons x ops)
  from Cons.prems(3) obtain a1 where a1: "apply_op amax esz x a = Inr a1"
    and rest: "run amax esz ops a1 = Inr a'"
    by (auto split: sum.splits)
  from apply_op_size_le_cap [OF Cons.prems(1) Cons.prems(2) a1] have "size_f a1 \<le> cap a1" .
  from Cons.IH [OF Cons.prems(1) this rest] show ?case .
qed

subsection \<open>Auxiliary facts on clearing\<close>

lemma foreach_empty:
  fixes a :: "('w::len, 'a) sc_array"
  shows "size_f a = 0 \<Longrightarrow> sc_array_foreach a = Inr []"
  by (simp add: foreach_Inr_iff)

lemma first_store:
  fixes s :: "('w::len, 'a) sc_array"
  assumes "size_f s = 0" and "elems s = Some p"
  shows "add_store s k =
     (if 0 < length p then Inr (s\<lparr>oom := False, size_f := 1, elems := Some (p[0 := k])\<rparr>)
      else Inl OutOfBounds)"
  using assms by (simp add: add_store_def)

lemma first_store_foreach:
  fixes s :: "('w::len, 'a) sc_array"
  assumes "0 < length p"
  shows "sc_array_foreach (s\<lparr>oom := False, size_f := 1, elems := Some (p[0 := k])\<rparr>) = Inr [k]"
proof -
  from assms obtain x q where "p = x # q"
    by (cases p) auto
  then show ?thesis
    by (simp add: foreach_Inr_iff)
qed

lemma grow_from_zero:
  fixes s :: "('w::len, 'a) sc_array"
  assumes room: "0 < unat (8 * esz) div unat esz" and c0: "cap s = 0" and s0: "size_f s = 0"
  shows "\<exists>c. sc_array_add amax esz (AllocOk junk) s k = Inr c \<and> oom c = False \<and> cap c = 8
           \<and> size_f c = 1 \<and> sc_array_foreach c = Inr [k]
           \<and> length (block_of (elems c)) = unat (8 * esz) div unat esz"
proof -
  let ?n = "unat ((8 :: 'w word) * esz) div unat esz"
  let ?p = "map (\<lambda>j. if j < length (block_of (elems s)) then block_of (elems s) ! j else junk j) [0 ..< ?n]"
  let ?g = "s\<lparr>cap := 8, elems := Some ?p\<rparr>"
  let ?c = "?g\<lparr>oom := False, size_f := 1, elems := Some (?p[0 := k])\<rparr>"
  have len: "0 < length ?p"
    using room by simp
  have "sc_array_add amax esz (AllocOk junk) s k = add_store ?g k"
    using c0 s0 by (simp add: new_cap_def sc_array_add_def sc_array_realloc_def)
  also have "\<dots> = Inr ?c"
    using first_store [of ?g ?p k] s0 len by simp
  finally have r: "sc_array_add amax esz (AllocOk junk) s k = Inr ?c" .
  have f: "sc_array_foreach ?c = Inr [k]"
    using len by (rule first_store_foreach)
  have l: "length (block_of (elems ?c)) = ?n"
    by (simp add: block_of_def)
  have "oom ?c = False" and "cap ?c = 8" and "size_f ?c = 1"
    by simp_all
  with r f l show ?thesis
    by blast
qed

lemma fail_from_zero:
  fixes s :: "('w::len, 'a) sc_array"
  assumes "cap s = 0" and "size_f s = 0"
  shows "sc_array_add amax esz AllocFail s k = Inr (s\<lparr>oom := True\<rparr>)"
  using assms by (simp add: sc_array_add_def sc_array_realloc_def)


lemma clear_then_add_same:
  fixes a :: "('w::len, 'a) sc_array"
  shows "size_f (sc_array_clear a) = 0 \<and> cap (sc_array_clear a) = 0
       \<and> oom (sc_array_clear a) = False \<and> elems (sc_array_clear a) = elems a
       \<and> new_cap (sc_array_clear a) = 8 \<and> new_cap (sc_array_init a) = 8
       \<and> map_sum id (\<lambda>c. (oom c, cap c, size_f c, sc_array_foreach c))
            (sc_array_add amax esz al (sc_array_clear a) k)
         = map_sum id (\<lambda>c. (oom c, cap c, size_f c, sc_array_foreach c))
            (sc_array_add amax esz al (sc_array_init a) k)
       \<and> (case sc_array_add amax esz al (sc_array_clear a) k of
             Inl f \<Rightarrow> f = OutOfBounds
           | Inr c \<Rightarrow> cap c = (if oom c then 0 else 8))"
proof (cases al)
  case AllocFail
  then show ?thesis
    by (simp add: sc_array_clear_def sc_array_init_def new_cap_def sc_array_add_def
          sc_array_realloc_def foreach_empty)
next
  case (AllocOk junk)
  let ?n = "unat ((8 :: 'w word) * esz) div unat esz"
  let ?pc = "map (\<lambda>j. if j < length (block_of (elems a)) then block_of (elems a) ! j else junk j) [0 ..< ?n]"
  let ?pi = "map junk [0 ..< ?n]"
  let ?sc = "(sc_array_clear a)\<lparr>cap := 8, elems := Some ?pc\<rparr>"
  let ?si = "(sc_array_init a)\<lparr>cap := 8, elems := Some ?pi\<rparr>"
  have c: "sc_array_add amax esz al (sc_array_clear a) k = add_store ?sc k"
    using AllocOk
    by (simp add: sc_array_clear_def new_cap_def sc_array_add_def sc_array_realloc_def)
  have i: "sc_array_add amax esz al (sc_array_init a) k = add_store ?si k"
    using AllocOk
    by (simp add: sc_array_init_def new_cap_def sc_array_add_def sc_array_realloc_def block_of_def)
  have sc: "add_store ?sc k =
     (if 0 < ?n then Inr (?sc\<lparr>oom := False, size_f := 1, elems := Some (?pc[0 := k])\<rparr>)
      else Inl OutOfBounds)"
    using first_store [of ?sc ?pc k] by (simp add: sc_array_clear_def)
  have si: "add_store ?si k =
     (if 0 < ?n then Inr (?si\<lparr>oom := False, size_f := 1, elems := Some (?pi[0 := k])\<rparr>)
      else Inl OutOfBounds)"
    using first_store [of ?si ?pi k] by (simp add: sc_array_init_def)
  show ?thesis
  proof (cases "0 < ?n")
    case True
    then have "sc_array_foreach (?sc\<lparr>oom := False, size_f := 1, elems := Some (?pc[0 := k])\<rparr>) = Inr [k]"
      and "sc_array_foreach (?si\<lparr>oom := False, size_f := 1, elems := Some (?pi[0 := k])\<rparr>) = Inr [k]"
      by (simp_all add: first_store_foreach)
    with True show ?thesis
      by (simp add: c i sc si) (simp add: sc_array_clear_def sc_array_init_def new_cap_def)
  next
    case False
    then have "add_store ?sc k = Inl OutOfBounds" and "add_store ?si k = Inl OutOfBounds"
      by (simp_all only: sc si if_False)
    then have "sc_array_add amax esz al (sc_array_clear a) k = Inl OutOfBounds"
      and "sc_array_add amax esz al (sc_array_init a) k = Inl OutOfBounds"
      by (simp_all only: c i)
    then show ?thesis
      by (simp add: sc_array_clear_def sc_array_init_def new_cap_def)
  qed
qed

lemma doubling_fits:
  fixes a :: "('w::len, 'a) sc_array"
  assumes le: "cap a \<le> amax div esz div 2" and nz: "cap a \<noteq> 0"
  shows "new_cap a \<le> amax div esz
       \<and> unat (new_cap a * esz) = unat (new_cap a) * unat esz"
proof -
  have two: "2 \<le> LENGTH('w)"
  proof (rule ccontr)
    assume "\<not> 2 \<le> LENGTH('w)"
    then have "LENGTH('w) = 1"
      using len_gt_0 [where 'a = 'w] by arith
    then have "(2 :: 'w word) = 0"
      by (simp add: word_eq_iff_unsigned [where ?'a = nat])
    then have "amax div esz div 2 = 0"
      by (simp only: div_by_0)
    with le nz show False
      by simp
  qed
  have d: "unat (cap a * 2) = 2 * unat (cap a)"
    using le by (rule double_no_wrap)
  have "unat (cap a) \<le> unat (amax div esz div 2)"
    using le by (simp add: word_le_nat_alt)
  also have "\<dots> = unat (amax div esz) div 2"
    by (simp only: unat_div unat_two [OF two])
  finally have m: "2 * unat (cap a) \<le> unat (amax div esz)"
    by arith
  then have fit: "new_cap a \<le> amax div esz"
    using nz d by (simp add: new_cap_def word_le_nat_alt)
  have "unat (amax div esz) * unat esz \<le> unat amax"
    by (simp add: unat_div)
  moreover have "2 * unat (cap a) * unat esz \<le> unat (amax div esz) * unat esz"
    using m by (rule mult_le_mono1)
  ultimately have "2 * unat (cap a) * unat esz \<le> unat amax"
    by (rule order_trans [rotated])
  then have "2 * unat (cap a) * unat esz < 2 ^ LENGTH('w)"
    by (rule le_less_trans) (rule unsigned_less)
  then have "unat (cap a * 2) * unat esz < 2 ^ LENGTH('w)"
    by (simp only: d)
  then have "unat (cap a * 2 * esz) = unat (cap a * 2) * unat esz"
    by (simp only: unat_mult_lem)
  with fit nz show ?thesis
    by (simp add: new_cap_def)
qed

subsection \<open>Append\<close>

text \<open>
  C1. Append failure atomicity: whatever the array, the element and the allocator's
  answer, when \<^verbatim>\<open>sc_array_add\<close> returns with the flag \<^verbatim>\<open>oom\<close> set, \<^verbatim>\<open>size\<close>,
  \<^verbatim>\<open>cap\<close> and the whole block behind \<^verbatim>\<open>elems\<close> are what they were before the call.
  In particular, on a full array of capacity 8 a failing \<^verbatim>\<open>realloc\<close> yields the same
  array with only the flag set.
\<close>

theorem add_failure_atomic:
  fixes a :: "('w::len, 'a) sc_array"
  shows "(sc_array_add amax esz al a k = Inr a' \<and> oom a'
            \<longrightarrow> size_f a' = size_f a \<and> cap a' = cap a \<and> elems a' = elems a)
       \<and> (cap a = 8 \<and> size_f a = 8
            \<longrightarrow> sc_array_add amax esz AllocFail a k = Inr (a\<lparr>oom := True\<rparr>))"
  by (auto simp: sc_array_add_def add_store_def sc_array_realloc_def Let_def
           split: if_splits option.splits alloc.splits)

theorem add_failure_atomic_witness:
  "(sc_array_add (- 1) 4 AllocFail ex_full 8
      = Inr \<lparr>oom = True, cap = 8, size_f = 8, elems = Some [0, 1, 2, 3, 4, 5, 6, 7]\<rparr>
    \<and> oom (\<lparr>oom = True, cap = 8, size_f = 8, elems = Some [0, 1, 2, 3, 4, 5, 6, 7]\<rparr>
         :: (64, nat) sc_array))
   \<and> cap ex_full = 8 \<and> size_f ex_full = 8
   \<and> elems ex_full = Some [0, 1, 2, 3, 4, 5, 6, 7]"
  using add_failure_atomic
    [of "- 1" 4 AllocFail ex_full 8
        "\<lparr>oom = True, cap = 8, size_f = 8, elems = Some [0, 1, 2, 3, 4, 5, 6, 7]\<rparr>"]
  by (simp add: ex_full_def)



subsection \<open>Round trip\<close>

text \<open>
  C9. Round trip: appending the elements of a list in order to a freshly initialised
  array, every append succeeding (returning with the flag clear), and then iterating
  with \<^verbatim>\<open>sc_array_foreach\<close> yields exactly that list.
\<close>

theorem append_then_iterate:
  fixes a0 :: "('w::len, 'a) sc_array"
  assumes "append_all amax esz ks (sc_array_init a0) = Inr (True, a)"
  shows "sc_array_foreach a = Inr (map snd ks)"
proof -
  have "holds (sc_array_init a0) []"
    by (simp add: holds_def sc_array_init_def block_of_def)
  from append_all_holds [OF this assms] show ?thesis
    by (simp add: holds_foreach)
qed

theorem append_then_iterate_witness:
  "append_all (- 1) 4 (map (Pair (AllocOk zero_fill)) [0, 1, 2, 3, 4, 5, 6, 7, 8])
      (sc_array_init ex_part)
     = Inr (True, \<lparr>oom = False, cap = 16, size_f = 9,
                   elems = Some [0, 1, 2, 3, 4, 5, 6, 7, 8, 0, 0, 0, 0, 0, 0, 0]\<rparr>)
   \<and> sc_array_foreach
        (\<lparr>oom = False, cap = 16, size_f = 9,
          elems = Some [0, 1, 2, 3, 4, 5, 6, 7, 8, 0, 0, 0, 0, 0, 0, 0 :: nat]\<rparr> :: (64, nat) sc_array)
     = Inr [0, 1, 2, 3, 4, 5, 6, 7, 8]"
  using append_then_iterate
    [of "- 1" 4 "map (Pair (AllocOk zero_fill)) [0, 1, 2, 3, 4, 5, 6, 7, 8]" ex_part
        "\<lparr>oom = False, cap = 16, size_f = 9,
          elems = Some [0, 1, 2, 3, 4, 5, 6, 7, 8, 0, 0, 0, 0, 0, 0, 0]\<rparr>"]
  by (simp add: sc_array_init_def sc_array_add_def add_store_def sc_array_realloc_def
        new_cap_def block_of_def zero_fill_def sc_array_oom_def upt_rec foreach_Inr_iff)

subsection \<open>The overflow guard\<close>

text \<open>
  C6. The guard \<^verbatim>\<open>cap > _max / 2\<close> protects the doubling (lemma \<open>doubling_fits\<close>:
  from a nonzero capacity that passes it, the new capacity is at most \<open>MAX\<close> and the
  byte count does not wrap), but not the first growth. With a 16-bit \<^verbatim>\<open>size_t\<close>
  and elements of 10000 bytes, \<open>MAX\<close> is 6; capacity 0 passes the guard, the new
  capacity is 8, the byte count \<open>8 * 10000\<close> wraps to 14464, and the append
  succeeds with \<^verbatim>\<open>cap = 8\<close> on a block of one slot. With \<^verbatim>\<open>SC_ARRAY_MAX\<close> set to
  16 and elements of 4 bytes on a 64-bit target, \<open>MAX\<close> is 4 and the first append
  succeeds with capacity 8.
\<close>

theorem first_growth_unguarded:
  "\<not> (- 1 :: 16 word) div 10000 div 2 < cap (sc_array_init ex_empty16)
   \<and> new_cap (sc_array_init ex_empty16) = 8
   \<and> (- 1 :: 16 word) div 10000 = 6
   \<and> unat (8 * 10000 :: 16 word) = 14464
   \<and> sc_array_add (- 1) 10000 (AllocOk zero_fill) (sc_array_init ex_empty16) 5
       = Inr \<lparr>oom = False, cap = 8, size_f = 1, elems = Some [5]\<rparr>
   \<and> \<not> (16 :: 64 word) div 4 div 2 < cap (sc_array_init ex_part)
   \<and> (16 :: 64 word) div 4 = 4
   \<and> sc_array_add 16 4 (AllocOk zero_fill) (sc_array_init ex_part) 5
       = Inr \<lparr>oom = False, cap = 8, size_f = 1, elems = Some [5, 0, 0, 0, 0, 0, 0, 0]\<rparr>"
  by (simp add: ex_empty16_def sc_array_init_def sc_array_add_def add_store_def
        sc_array_realloc_def new_cap_def block_of_def zero_fill_def upt_rec)

subsection \<open>Clear\<close>

text \<open>
  C5. \<^verbatim>\<open>sc_array_clear\<close> sets \<^verbatim>\<open>size\<close> and \<^verbatim>\<open>cap\<close> to 0 and the flag to false and
  leaves \<^verbatim>\<open>elems\<close> pointing to the block it had. The append that follows grows as
  the first append on a freshly initialised array does:
  \<^item> if \<^verbatim>\<open>realloc\<close> fails, it returns the cleared array with the flag set;
  \<^item> if \<^verbatim>\<open>realloc\<close> succeeds with a block of at least one slot, it returns with
    the flag clear, capacity 8, size 1 and the appended element as the only one
    iterated, on a block of the size asked for; so does the first append on the
    fresh array;
  \<^item> for every answer of the allocator it ends as it would on the fresh array: the
    same fault, or the same flag, capacity, size and iteration result.
\<close>

theorem clear_then_add:
  fixes a :: "('w::len, 'a) sc_array"
  shows "size_f (sc_array_clear a) = 0 \<and> cap (sc_array_clear a) = 0
       \<and> oom (sc_array_clear a) = False \<and> elems (sc_array_clear a) = elems a
       \<and> sc_array_add amax esz AllocFail (sc_array_clear a) k
           = Inr (a\<lparr>cap := 0, size_f := 0, oom := True\<rparr>)
       \<and> (0 < unat (8 * esz) div unat esz \<longrightarrow>
            (\<exists>c. sc_array_add amax esz (AllocOk junk) (sc_array_clear a) k = Inr c
                  \<and> oom c = False \<and> cap c = 8 \<and> size_f c = 1
                  \<and> sc_array_foreach c = Inr [k]
                  \<and> length (block_of (elems c)) = unat (8 * esz) div unat esz)
          \<and> (\<exists>f. sc_array_add amax esz (AllocOk junk) (sc_array_init a) k = Inr f
                  \<and> oom f = False \<and> cap f = 8 \<and> size_f f = 1
                  \<and> sc_array_foreach f = Inr [k]
                  \<and> length (block_of (elems f)) = unat (8 * esz) div unat esz))
       \<and> new_cap (sc_array_clear a) = 8 \<and> new_cap (sc_array_init a) = 8
       \<and> map_sum id (\<lambda>c. (oom c, cap c, size_f c, sc_array_foreach c))
            (sc_array_add amax esz al (sc_array_clear a) k)
         = map_sum id (\<lambda>c. (oom c, cap c, size_f c, sc_array_foreach c))
            (sc_array_add amax esz al (sc_array_init a) k)
       \<and> (case sc_array_add amax esz al (sc_array_clear a) k of
             Inl f \<Rightarrow> f = OutOfBounds
           | Inr c \<Rightarrow> cap c = (if oom c then 0 else 8))"
proof -
  have z: "cap (sc_array_clear a) = 0" "size_f (sc_array_clear a) = 0"
    "cap (sc_array_init a) = 0" "size_f (sc_array_init a) = 0"
    by (simp_all add: sc_array_clear_def sc_array_init_def)
  have fail: "sc_array_add amax esz AllocFail (sc_array_clear a) k
      = Inr (a\<lparr>cap := 0, size_f := 0, oom := True\<rparr>)"
    using fail_from_zero [OF z(1) z(2), of amax esz k] by (simp add: sc_array_clear_def)
  have grow: "(\<exists>c. sc_array_add amax esz (AllocOk junk) (sc_array_clear a) k = Inr c
                  \<and> oom c = False \<and> cap c = 8 \<and> size_f c = 1
                  \<and> sc_array_foreach c = Inr [k]
                  \<and> length (block_of (elems c)) = unat (8 * esz) div unat esz)
          \<and> (\<exists>f. sc_array_add amax esz (AllocOk junk) (sc_array_init a) k = Inr f
                  \<and> oom f = False \<and> cap f = 8 \<and> size_f f = 1
                  \<and> sc_array_foreach f = Inr [k]
                  \<and> length (block_of (elems f)) = unat (8 * esz) div unat esz)"
    if room: "0 < unat (8 * esz) div unat esz"
    using grow_from_zero [OF room z(1) z(2)] grow_from_zero [OF room z(3) z(4)] by blast
  from fail grow clear_then_add_same [of a amax esz al k] show ?thesis
    by blast
qed

theorem clear_then_add_witness:
  "0 < unat (8 * 4 :: 64 word) div unat (4 :: 64 word)
   \<and> sc_array_clear ex_full
       = \<lparr>oom = False, cap = 0, size_f = 0, elems = Some [0, 1, 2, 3, 4, 5, 6, 7]\<rparr>
   \<and> sc_array_add (- 1) 4 (AllocOk zero_fill) (sc_array_clear ex_full) 9
       = Inr \<lparr>oom = False, cap = 8, size_f = 1, elems = Some [9, 1, 2, 3, 4, 5, 6, 7]\<rparr>
   \<and> sc_array_add (- 1) 4 (AllocOk zero_fill) (sc_array_init ex_full) 9
       = Inr \<lparr>oom = False, cap = 8, size_f = 1, elems = Some [9, 0, 0, 0, 0, 0, 0, 0]\<rparr>
   \<and> sc_array_foreach
        (\<lparr>oom = False, cap = 8, size_f = 1, elems = Some [9, 1, 2, 3, 4, 5, 6, 7]\<rparr>
           :: (64, nat) sc_array) = Inr [9]
   \<and> sc_array_add (- 1) 4 AllocFail (sc_array_clear ex_full) 9
       = Inr \<lparr>oom = True, cap = 0, size_f = 0, elems = Some [0, 1, 2, 3, 4, 5, 6, 7]\<rparr>"
  using clear_then_add
    [where a = ex_full and amax = "- 1" and esz = 4 and junk = zero_fill and k = 9
       and al = AllocFail]
  by (simp add: ex_full_def sc_array_clear_def sc_array_init_def sc_array_add_def add_store_def
        sc_array_realloc_def new_cap_def block_of_def zero_fill_def upt_rec foreach_Inr_iff)

subsection \<open>Capacity zero and the block\<close>

text \<open>
  C4 as stated (invariant I2 over every sequence of operations) fails: after one
  successful append and a \<^verbatim>\<open>sc_array_clear\<close>, \<^verbatim>\<open>cap\<close> is 0 and \<^verbatim>\<open>elems\<close>
  still points to the block of 8 slots.
\<close>

theorem clear_keeps_block_counterexample:
  "run (- 1) 4 [Add (AllocOk zero_fill) 7, Clear] (sc_array_init ex_part)
     = Inr \<lparr>oom = False, cap = 0, size_f = 0, elems = Some [7, 0, 0, 0, 0, 0, 0, 0]\<rparr>
   \<and> cap (\<lparr>oom = False, cap = 0, size_f = 0, elems = Some [7, 0, 0, 0, 0, 0, 0, 0 :: nat]\<rparr>
            :: (64, nat) sc_array) = 0
   \<and> elems (\<lparr>oom = False, cap = 0, size_f = 0, elems = Some [7, 0, 0, 0, 0, 0, 0, 0 :: nat]\<rparr>
            :: (64, nat) sc_array) \<noteq> None"
  by (simp add: sc_array_init_def sc_array_add_def add_store_def sc_array_realloc_def
        new_cap_def block_of_def zero_fill_def sc_array_clear_def upt_rec)

text \<open>
  C4, amended. On a target whose \<^verbatim>\<open>size_t\<close> has at least 4 bits, in every state
  reached from a freshly initialised array by \<^verbatim>\<open>sc_array_init\<close>, \<^verbatim>\<open>sc_array_add\<close>,
  \<^verbatim>\<open>sc_array_del\<close>, \<^verbatim>\<open>sc_array_del_unordered\<close>, \<^verbatim>\<open>sc_array_del_last\<close> and
  \<^verbatim>\<open>sc_array_term\<close> (no \<^verbatim>\<open>sc_array_clear\<close>), \<^verbatim>\<open>cap == 0\<close> implies that
  \<^verbatim>\<open>elems\<close> is \<^verbatim>\<open>NULL\<close>.
\<close>

theorem cap_zero_no_block:
  fixes a0 :: "('w::len, 'a) sc_array"
  assumes "4 \<le> LENGTH('w)" and "Clear \<notin> set ops"
    and "run amax esz ops (sc_array_init a0) = Inr a" and "cap a = 0"
  shows "elems a = None"
proof -
  have "cap (sc_array_init a0) = 0 \<longrightarrow> elems (sc_array_init a0) = None"
    by (simp add: sc_array_init_def)
  from run_cap_zero [OF assms(1) this assms(2) assms(3)] assms(4) show ?thesis
    by simp
qed

theorem cap_zero_no_block_witness:
  "4 \<le> LENGTH(64)
   \<and> Clear \<notin> set [Add AllocFail 7, Add (AllocOk zero_fill) 7, Del 0, Term, Add AllocFail (1 :: nat)]
   \<and> run (- 1) 4 [Add AllocFail 7, Add (AllocOk zero_fill) 7, Del 0, Term, Add AllocFail 1]
        (sc_array_init ex_part)
       = Inr \<lparr>oom = True, cap = 0, size_f = 0, elems = None\<rparr>
   \<and> cap (\<lparr>oom = True, cap = 0, size_f = 0, elems = None\<rparr> :: (64, nat) sc_array) = 0
   \<and> elems (\<lparr>oom = True, cap = 0, size_f = 0, elems = None\<rparr> :: (64, nat) sc_array) = None"
  using cap_zero_no_block
    [of "[Add AllocFail 7, Add (AllocOk zero_fill) 7, Del 0, Term, Add AllocFail 1]" "- 1" 4
        ex_part "\<lparr>oom = True, cap = 0, size_f = 0, elems = None\<rparr>"]
  by (simp add: sc_array_init_def sc_array_term_def sc_array_add_def add_store_def
        sc_array_realloc_def new_cap_def block_of_def zero_fill_def sc_array_del_def upt_rec)

subsection \<open>Deleting\<close>

text \<open>
  C7. Ordered delete. Let the array hold \<open>xs\<close> (iterating it yields \<open>xs\<close>), let
  \<open>i < size\<close>, and let the block be a real one, whose byte size fits \<^verbatim>\<open>size_t\<close>.
  Then \<^verbatim>\<open>sc_array_del\<close> returns an array that holds \<open>xs\<close> without its element
  \<open>i\<close>, the others in their order; \<^verbatim>\<open>size\<close> is one less and \<^verbatim>\<open>cap\<close> and \<^verbatim>\<open>oom\<close>
  are as before.
\<close>

theorem del_preserves_order:
  fixes a :: "('w::len, 'a) sc_array"
  assumes it: "sc_array_foreach a = Inr xs" and lt: "i < size_f a"
    and esz: "esz \<noteq> 0"
    and fits: "length (block_of (elems a)) * unat esz < 2 ^ LENGTH('w)"
  shows "\<exists>a'. sc_array_del esz a i = Inr a'
           \<and> sc_array_foreach a' = Inr (take (unat i) xs @ drop (Suc (unat i)) xs)
           \<and> size_f a' = size_f a - 1 \<and> unat (size_f a') = length xs - 1
           \<and> cap a' = cap a \<and> oom a' = oom a"
proof -
  let ?n = "unat (size_f a)" and ?i = "unat i"
  from lt have nz: "size_f a \<noteq> 0"
    by auto
  from foreach_holds [OF it nz] obtain b where b: "elems a = Some b" and nb: "?n \<le> length b"
    and xs: "xs = take ?n b" .
  from lt have ui: "?i < ?n"
    by (simp add: word_less_nat_alt)
  have n1: "unat (size_f a - 1) = ?n - 1"
    using nz by (rule unat_minus_one)
  have cnt: "unat (size_f a - i - 1) = ?n - ?i - 1"
    using lt by (rule del_count)
  have lx: "length xs = ?n"
    using xs nb by simp
  have le1: "?n - 1 \<le> length b"
    using nb by arith
  show ?thesis
  proof (cases "size_f a - i - 1 > 0")
    case False
    then have "size_f a - i - 1 = 0"
      by (simp add: word_greater_zero_iff)
    with cnt have last: "?n = Suc ?i"
      using ui by simp
    let ?a' = "a\<lparr>size_f := size_f a - 1\<rparr>"
    have d: "sc_array_del esz a i = Inr ?a'"
      using lt False by (simp add: sc_array_del_def)
    have "sc_array_foreach ?a' = Inr (take (?n - 1) b)"
      using b le1 n1 by (simp add: foreach_Inr_iff)
    moreover have "take (?n - 1) b = take ?i xs @ drop (Suc ?i) xs"
      using xs last nb by simp
    ultimately show ?thesis
      using d n1 lx by simp
  next
    case True
    let ?c = "?n - ?i - 1"
    let ?b' = "take ?i b @ take ?c (drop (Suc ?i) b) @ drop (?i + ?c) b"
    let ?a' = "a\<lparr>elems := Some ?b', size_f := size_f a - 1\<rparr>"
    have "?c \<le> length b"
      using nb by arith
    then have "?c * unat esz \<le> length b * unat esz"
      by (rule mult_le_mono1)
    moreover have "length b * unat esz < 2 ^ LENGTH('w)"
      using fits b by (simp add: block_of_def)
    ultimately have "?c * unat esz < 2 ^ LENGTH('w)"
      by (rule le_less_trans)
    then have "unat (size_f a - i - 1) * unat esz < 2 ^ LENGTH('w)"
      by (simp only: cnt)
    then have "unat ((size_f a - i - 1) * esz) = unat (size_f a - i - 1) * unat esz"
      by (simp only: unat_mult_lem)
    then have bytes: "unat ((size_f a - i - 1) * esz) = ?c * unat esz"
      by (simp only: cnt)
    have epos: "0 < unat esz"
      using esz by (simp add: unat_gt_0)
    have mm: "memmove_slots (unat esz) b ?i (unat (i + 1)) (unat ((size_f a - i - 1) * esz))
        = Inr ?b'"
      using epos ui nb by (simp add: memmove_slots_def bytes word_succ_unat(1) [OF lt] Let_def)
    have d: "sc_array_del esz a i = Inr ?a'"
      using lt True b mm by (simp add: sc_array_del_def Let_def)
    have lb': "length ?b' = length b"
      using ui nb by simp
    have "sc_array_foreach ?a' = Inr (take (?n - 1) ?b')"
      using le1 n1 lb' by (simp only: foreach_Inr_iff) simp
    moreover have "take (?n - 1) ?b' = take ?i b @ take ?c (drop (Suc ?i) b)"
      using ui nb by simp
    moreover have "take ?i xs @ drop (Suc ?i) xs = take ?i b @ take ?c (drop (Suc ?i) b)"
      using ui nb xs by (simp add: drop_take min_def)
    ultimately show ?thesis
      using d n1 lx by simp
  qed
qed

theorem del_preserves_order_witness:
  "sc_array_foreach ex_part = Inr [10, 11, 12, 13, 14]
   \<and> (1 :: 64 word) < size_f ex_part \<and> (4 :: 64 word) \<noteq> 0
   \<and> length (block_of (elems ex_part)) * unat (4 :: 64 word) < 2 ^ LENGTH(64)
   \<and> sc_array_del 4 ex_part 1
       = Inr \<lparr>oom = True, cap = 8, size_f = 4, elems = Some [10, 12, 13, 14, 14, 0, 0, 0]\<rparr>
   \<and> sc_array_foreach
        (\<lparr>oom = True, cap = 8, size_f = 4, elems = Some [10, 12, 13, 14, 14, 0, 0, 0]\<rparr>
           :: (64, nat) sc_array)
       = Inr [10, 12, 13, 14]"
  using del_preserves_order [of ex_part "[10, 11, 12, 13, 14]" 1 4]
  by (simp add: ex_part_def foreach_Inr_iff
        sc_array_del_def memmove_slots_def block_of_def)

text \<open>
  C8. Unordered delete. Let the array hold \<open>xs\<close> and let \<open>i < size\<close>. Then
  \<^verbatim>\<open>sc_array_del_unordered\<close> returns an array that holds \<open>xs\<close> with slot \<open>i\<close>
  overwritten by the last element and the last slot dropped: as a multiset this is
  \<open>xs\<close> less one copy of the deleted element. \<^verbatim>\<open>size\<close> is one less, \<^verbatim>\<open>cap\<close> and
  \<^verbatim>\<open>oom\<close> are as before, and at the last valid index the result is that of
  \<^verbatim>\<open>sc_array_del_last\<close>.
\<close>

theorem del_unordered_swap_remove:
  fixes a :: "('w::len, 'a) sc_array"
  assumes it: "sc_array_foreach a = Inr xs" and lt: "i < size_f a"
  shows "\<exists>a'. sc_array_del_unordered a i = Inr a'
           \<and> sc_array_foreach a' = Inr (butlast (xs[unat i := last xs]))
           \<and> mset (butlast (xs[unat i := last xs])) = mset xs - {#xs ! unat i#}
           \<and> size_f a' = size_f a - 1 \<and> unat (size_f a') = length xs - 1
           \<and> cap a' = cap a \<and> oom a' = oom a
           \<and> (i = size_f a - 1 \<longrightarrow> sc_array_del_unordered a i = sc_array_del_last a)"
proof -
  let ?n = "unat (size_f a)" and ?i = "unat i"
  from lt have nz: "size_f a \<noteq> 0"
    by auto
  from foreach_holds [OF it nz] obtain b where b: "elems a = Some b" and nb: "?n \<le> length b"
    and xs: "xs = take ?n b" .
  from lt have ui: "?i < ?n"
    by (simp add: word_less_nat_alt)
  have n1: "unat (size_f a - 1) = ?n - 1"
    using nz by (rule unat_minus_one)
  have lx: "length xs = ?n"
    using xs nb by simp
  have pos: "0 < ?n"
    using ui by simp
  let ?b' = "b[?i := b ! (?n - 1)]"
  let ?a' = "a\<lparr>size_f := size_f a - 1, elems := Some ?b'\<rparr>"
  have d: "sc_array_del_unordered a i = Inr ?a'"
    using lt b ui nb pos by (simp add: sc_array_del_unordered_def n1)
  have le1: "?n - 1 \<le> length ?b'"
    using nb by simp
  have f: "sc_array_foreach ?a' = Inr (take (?n - 1) ?b')"
    using le1 n1 by (simp only: foreach_Inr_iff) simp
  have "xs \<noteq> []"
    using lx pos by auto
  then have "last xs = xs ! (length xs - 1)"
    by (rule last_conv_nth)
  also have "\<dots> = take ?n b ! (?n - 1)"
    using nb by (simp add: xs)
  also have "\<dots> = b ! (?n - 1)"
    using pos by simp
  finally have "last xs = b ! (?n - 1)" .
  then have "butlast (xs[?i := last xs]) = take (?n - 1) ?b'"
    using xs nb pos by (simp add: butlast_conv_take take_update_swap min_def)
  with f have f': "sc_array_foreach ?a' = Inr (butlast (xs[?i := last xs]))"
    by simp
  have m: "mset (butlast (xs[?i := last xs])) = mset xs - {#xs ! ?i#}"
    using ui lx by (simp add: swap_remove_mset)
  have p: "sc_array_del_unordered a i = sc_array_del_last a" if "i = size_f a - 1"
  proof -
    from that n1 have "?b' = b"
      by simp
    then have "?a' = a\<lparr>size_f := size_f a - 1\<rparr>"
      using b by simp
    with d nz show ?thesis
      by (simp add: sc_array_del_last_def)
  qed
  show ?thesis
    using d f' m n1 lx p by simp
qed

theorem del_unordered_swap_remove_witness:
  "sc_array_foreach ex_part = Inr [10, 11, 12, 13, 14] \<and> (1 :: 64 word) < size_f ex_part
   \<and> sc_array_del_unordered ex_part 1
       = Inr \<lparr>oom = True, cap = 8, size_f = 4, elems = Some [10, 14, 12, 13, 14, 0, 0, 0]\<rparr>
   \<and> sc_array_foreach
        (\<lparr>oom = True, cap = 8, size_f = 4, elems = Some [10, 14, 12, 13, 14, 0, 0, 0]\<rparr>
           :: (64, nat) sc_array)
       = Inr [10, 14, 12, 13]
   \<and> sc_array_foreach ex_part = Inr [10, 11, 12, 13, 14] \<and> (4 :: 64 word) < size_f ex_part
   \<and> (4 :: 64 word) = size_f ex_part - 1
   \<and> sc_array_del_unordered ex_part 4 = sc_array_del_last ex_part"
  using del_unordered_swap_remove [of ex_part "[10, 11, 12, 13, 14]" 1]
    del_unordered_swap_remove [of ex_part "[10, 11, 12, 13, 14]" 4]
  by (simp add: ex_part_def foreach_Inr_iff sc_array_del_unordered_def sc_array_del_last_def)

text \<open>
  C10. On an array with \<^verbatim>\<open>size\<close> at least 1, \<^verbatim>\<open>sc_array_del\<close> at index
  \<^verbatim>\<open>size - 1\<close> and \<^verbatim>\<open>sc_array_del_last\<close> give the same array: \<^verbatim>\<open>size\<close> is one less
  and \<^verbatim>\<open>cap\<close>, \<^verbatim>\<open>oom\<close> and every slot are untouched. The shift count is zero, so
  \<^verbatim>\<open>memmove\<close> is not called and the block is not even looked at: the equation holds
  too when \<^verbatim>\<open>elems\<close> is \<^verbatim>\<open>NULL\<close>.
\<close>

theorem del_at_last_is_pop:
  fixes a :: "('w::len, 'a) sc_array"
  assumes "size_f a \<noteq> 0"
  shows "sc_array_del esz a (size_f a - 1) = Inr (a\<lparr>size_f := size_f a - 1\<rparr>)
       \<and> sc_array_del_last a = Inr (a\<lparr>size_f := size_f a - 1\<rparr>)"
  using assms word_pred_less [of "size_f a"]
  by (simp add: sc_array_del_def sc_array_del_last_def)

theorem del_at_last_is_pop_witness:
  "size_f ex_part \<noteq> 0 \<and> size_f ex_part - 1 = 4
   \<and> sc_array_del 4 ex_part 4
       = Inr \<lparr>oom = True, cap = 8, size_f = 4, elems = Some [10, 11, 12, 13, 14, 0, 0, 0]\<rparr>
   \<and> sc_array_del_last ex_part
       = Inr \<lparr>oom = True, cap = 8, size_f = 4, elems = Some [10, 11, 12, 13, 14, 0, 0, 0]\<rparr>"
  using del_at_last_is_pop [of ex_part 4]
  by (simp add: ex_part_def)

subsection \<open>Sort\<close>

text \<open>
  C3. \<^verbatim>\<open>sc_array_sort\<close> on the \<^verbatim>\<open>int\<close> array holding 1, 3, 2 calls \<^verbatim>\<open>qsort\<close> with
  record width 1, the first element, where the element size is 4: the call does
  not sort the elements. On a freshly initialised array the macro reads through
  the \<^verbatim>\<open>NULL\<close> pointer. Called with width 4, \<^verbatim>\<open>qsort\<close> gives 1, 2, 3.
\<close>

theorem sort_width_is_first_element:
  "sc_array_sort 4 scast ex_ints cmp_int = Inl WidthMismatch
   \<and> sc_array_sort 4 scast (sc_array_init ex_ints) cmp_int = Inl NullDeref
   \<and> qsort_slots 4 [1, 3, 2, 0, 0, 0, 0, 0] 3 4 cmp_int = Inr [1, 2, 3, 0, 0, 0, 0, 0]"
  by (simp add: ex_ints_def sc_array_sort_def qsort_slots_def sc_array_init_def cmp_int_def)

end
